theory Spec2Isabelle
  imports Complex_Main "HOL-Library.AList" "HOL-Library.Sublist"
begin

section \<open>Shared conventions\<close>

text \<open>
  Python exceptions are values: a computation that may raise returns \<open>error + 'a\<close>,
  with \<open>Inl\<close> carrying the exception. Log records written through the process-wide
  \<open>logging\<close> configuration are kept as a list of (level, message) pairs, oldest first;
  the timestamp of the format string is not modelled.
\<close>

datatype error =
    KeyError | IndexError | ZeroDivisionError
  | FileNotFoundError | FileExistsError | NotADirectoryError | IsADirectoryError | SameFileError

datatype level = INFO | ERROR

type_synonym log_record = "level \<times> string"

section \<open>DataStorage\<close>

text \<open>
  \<open>self._data\<close> is a \<open>Dict[str, str]\<close>: a finite map from strings to strings.
\<close>

record DataStorage =
  data :: "string \<rightharpoonup> string"
  log :: "log_record list"

definition logging_info :: "string \<Rightarrow> DataStorage \<Rightarrow> DataStorage" where
  "logging_info msg s = s\<lparr>log := log s @ [(INFO, msg)]\<rparr>"

definition init :: DataStorage where
  "init = logging_info ''DataStorage initialized'' \<lparr>data = Map.empty, log = []\<rparr>"

definition add :: "DataStorage \<Rightarrow> string \<Rightarrow> string \<Rightarrow> DataStorage" where
  "add s key val = logging_info (''Added/Updated key: '' @ key) (s\<lparr>data := (data s)(key \<mapsto> val)\<rparr>)"

text \<open>\<open>dict.get(key, default)\<close>: the stored value, or the default when the key is absent.\<close>

definition dict_get :: "('k \<rightharpoonup> 'v) \<Rightarrow> 'k \<Rightarrow> 'v \<Rightarrow> 'v" where
  "dict_get d key dflt = (case d key of None \<Rightarrow> dflt | Some v \<Rightarrow> v)"

definition get :: "DataStorage \<Rightarrow> string \<Rightarrow> string \<times> DataStorage" where
  "get s key =
     (let val = dict_get (data s) key ''Key not found''
      in (val, logging_info (''Retrieved key: '' @ key) s))"

text \<open>\<open>del d[key]\<close> raises \<open>KeyError\<close> when the key is absent.\<close>

definition dict_del :: "('k \<rightharpoonup> 'v) \<Rightarrow> 'k \<Rightarrow> error + ('k \<rightharpoonup> 'v)" where
  "dict_del d key = (if d key = None then Inl KeyError else Inr (d(key := None)))"

definition delete :: "DataStorage \<Rightarrow> string \<Rightarrow> error + DataStorage" where
  "delete s key =
     (if data s key \<noteq> None
      then (case dict_del (data s) key of
              Inl e \<Rightarrow> Inl e
            | Inr d \<Rightarrow> Inr (logging_info (''Deleted key: '' @ key) (s\<lparr>data := d\<rparr>)))
      else Inr s)"

definition list_all_data :: "DataStorage \<Rightarrow> (string \<rightharpoonup> string) \<times> DataStorage" where
  "list_all_data s = (data s, logging_info ''Listed all data'' s)"

section \<open>Polygon collision\<close>

text \<open>
  A point is a pair of coordinates and a polygon the list of its vertices. Coordinates
  are real numbers; the rounding of Python's binary floating point is not modelled.
\<close>

type_synonym point = "real \<times> real"
type_synonym polygon = "point list"
type_synonym edge = "point \<times> point"

definition on_ok :: "error + 'a \<Rightarrow> ('a \<Rightarrow> error + 'b) \<Rightarrow> error + 'b" where
  "on_ok m f = (case m of Inl e \<Rightarrow> Inl e | Inr x \<Rightarrow> f x)"

text \<open>\<open>xs[i]\<close>: a negative index counts from the end, an index out of range raises.\<close>

definition py_index :: "'a list \<Rightarrow> int \<Rightarrow> error + 'a" where
  "py_index xs i =
     (let n = int (length xs); k = (if i < 0 then i + n else i)
      in if 0 \<le> k \<and> k < n then Inr (xs ! nat k) else Inl IndexError)"

text \<open>\<open>a / b\<close> and \<open>a % b\<close> raise when the divisor is zero.\<close>

definition py_truediv :: "real \<Rightarrow> real \<Rightarrow> error + real" where
  "py_truediv a b = (if b = 0 then Inl ZeroDivisionError else Inr (a / b))"

definition py_mod :: "int \<Rightarrow> int \<Rightarrow> error + int" where
  "py_mod a b = (if b = 0 then Inl ZeroDivisionError else Inr (a mod b))"

text \<open>
  The condition of the \<open>if\<close> in the loop of \<open>point_in_polygon\<close>, for the point \<open>(x, y)\<close>
  and the vertices \<open>polygon[i]\<close> and \<open>polygon[j]\<close>. The \<open>and\<close> evaluates the
  interpolation, and with it the division, only when the first operand holds.
\<close>

definition toggles :: "point \<Rightarrow> point \<Rightarrow> point \<Rightarrow> error + bool" where
  "toggles p vi vj =
     (case p of (x, y) \<Rightarrow>
        if (snd vi > y) \<noteq> (snd vj > y)
        then on_ok (py_truediv ((fst vj - fst vi) * (y - snd vi)) (snd vj - snd vi))
               (\<lambda>q. Inr (x < q + fst vi))
        else Inr False)"

text \<open>
  The loop \<open>for i in range(len(polygon))\<close>, over the indices still to visit, with the
  loop-carried variables \<open>j\<close> and \<open>inside\<close>.
\<close>

fun pip_loop :: "point \<Rightarrow> polygon \<Rightarrow> nat list \<Rightarrow> int \<Rightarrow> bool \<Rightarrow> error + bool" where
  "pip_loop p poly [] j inside = Inr inside"
| "pip_loop p poly (i # rest) j inside =
     on_ok (py_index poly (int i)) (\<lambda>vi.
     on_ok (py_index poly j) (\<lambda>vj.
     on_ok (toggles p vi vj) (\<lambda>t.
     pip_loop p poly rest (int i) (if t then \<not> inside else inside))))"

definition point_in_polygon :: "point \<Rightarrow> polygon \<Rightarrow> error + bool" where
  "point_in_polygon p poly = pip_loop p poly [0..<length poly] (int (length poly) - 1) False"

text \<open>A list comprehension: the first element that raises ends it.\<close>

fun collect :: "('a \<Rightarrow> error + 'b) \<Rightarrow> 'a list \<Rightarrow> error + 'b list" where
  "collect f [] = Inr []"
| "collect f (x # xs) = on_ok (f x) (\<lambda>y. on_ok (collect f xs) (\<lambda>ys. Inr (y # ys)))"

definition get_edges :: "polygon \<Rightarrow> error + edge list" where
  "get_edges poly =
     collect (\<lambda>i. on_ok (py_index poly (int i)) (\<lambda>a.
                   on_ok (py_mod (int i + 1) (int (length poly))) (\<lambda>k.
                   on_ok (py_index poly k) (\<lambda>b. Inr (a, b)))))
       [0..<length poly]"

definition ccw :: "point \<Rightarrow> point \<Rightarrow> point \<Rightarrow> bool" where
  "ccw A B C = ((snd C - snd A) * (fst B - fst A) > (snd B - snd A) * (fst C - fst A))"

definition line_segments_intersect :: "edge \<Rightarrow> edge \<Rightarrow> bool" where
  "line_segments_intersect seg1 seg2 =
     (case seg1 of (A, B) \<Rightarrow> case seg2 of (C, D) \<Rightarrow>
        ccw A C D \<noteq> ccw B C D \<and> ccw A B C \<noteq> ccw A B D)"

text \<open>
  \<open>for point in points: if point_in_polygon(point, polygon): return True\<close>; the result
  \<open>True\<close> is the early return, \<open>False\<close> is falling out of the loop.
\<close>

fun any_inside :: "point list \<Rightarrow> polygon \<Rightarrow> error + bool" where
  "any_inside [] poly = Inr False"
| "any_inside (p # ps) poly =
     on_ok (point_in_polygon p poly) (\<lambda>b. if b then Inr True else any_inside ps poly)"

text \<open>\<open>any(... for edge1 in edges1 for edge2 in edges2)\<close>.\<close>

definition any_edges_intersect :: "edge list \<Rightarrow> edge list \<Rightarrow> bool" where
  "any_edges_intersect edges1 edges2 =
     list_ex (\<lambda>edge1. list_ex (\<lambda>edge2. line_segments_intersect edge1 edge2) edges2) edges1"

definition check_polygon_collision :: "polygon \<Rightarrow> polygon \<Rightarrow> error + bool" where
  "check_polygon_collision polygon1 polygon2 =
     on_ok (any_inside polygon1 polygon2) (\<lambda>hit1.
       if hit1 then Inr True
       else on_ok (any_inside polygon2 polygon1) (\<lambda>hit2.
         if hit2 then Inr True
         else on_ok (get_edges polygon1) (\<lambda>edges1.
              on_ok (get_edges polygon2) (\<lambda>edges2.
              Inr (any_edges_intersect edges1 edges2)))))"

subsection \<open>Axis-aligned rectangles\<close>

text \<open>
  The spec takes axis-aligned squares as ground truth for the geometric properties.
  \<open>rectangle x1 y1 x2 y2\<close> is the vertex list of the rectangle with lower-left corner
  \<open>(x1, y1)\<close> and upper-right corner \<open>(x2, y2)\<close>, counter-clockwise from the lower-left
  corner, as the spec writes its squares; \<open>rectangle_region\<close> is the set of points it
  covers, boundary included, and \<open>rectangle_interior\<close> the same without the boundary.
\<close>

definition rectangle :: "real \<Rightarrow> real \<Rightarrow> real \<Rightarrow> real \<Rightarrow> polygon" where
  "rectangle x1 y1 x2 y2 = [(x1, y1), (x2, y1), (x2, y2), (x1, y2)]"

definition rectangle_region :: "real \<Rightarrow> real \<Rightarrow> real \<Rightarrow> real \<Rightarrow> point set" where
  "rectangle_region x1 y1 x2 y2 = {(x, y). x1 \<le> x \<and> x \<le> x2 \<and> y1 \<le> y \<and> y \<le> y2}"

definition rectangle_interior :: "real \<Rightarrow> real \<Rightarrow> real \<Rightarrow> real \<Rightarrow> point set" where
  "rectangle_interior x1 y1 x2 y2 = {(x, y). x1 < x \<and> x < x2 \<and> y1 < y \<and> y < y2}"

section \<open>Word frequencies\<close>

text \<open>
  A Python \<open>str\<close> is modelled as a \<open>string\<close> of ASCII characters. On those,
  \<open>str.lower\<close> maps \<open>A\<close>..\<open>Z\<close> to \<open>a\<close>..\<open>z\<close> and leaves the rest, and the class \<open>\w\<close> of
  the regular expression holds the letters, the digits and the underscore.
\<close>

definition lower_char :: "char \<Rightarrow> char" where
  "lower_char c =
     (let n = (of_char c :: nat) in if 65 \<le> n \<and> n \<le> 90 then char_of (n + 32) else c)"

definition lower :: "string \<Rightarrow> string" where
  "lower s = map lower_char s"

definition is_word_char :: "char \<Rightarrow> bool" where
  "is_word_char c =
     (let n = (of_char c :: nat)
      in (48 \<le> n \<and> n \<le> 57) \<or> (65 \<le> n \<and> n \<le> 90) \<or> n = 95 \<or> (97 \<le> n \<and> n \<le> 122))"

text \<open>
  \<open>re.findall(r'\b\w+\b', s)\<close>: the scan from left to right. A match can only start at
  a word character that follows a non-word character or the start of the string; there
  the greedy \<open>\w+\<close> takes every word character that follows, and the closing \<open>\b\<close>
  holds at the end of that run. So the matches are the maximal runs of word characters,
  in order. \<open>cur\<close> is the run being read.
\<close>

fun findall_words :: "string \<Rightarrow> string \<Rightarrow> string list" where
  "findall_words [] cur = (if cur = [] then [] else [cur])"
| "findall_words (c # cs) cur =
     (if is_word_char c then findall_words cs (cur @ [c])
      else if cur = [] then findall_words cs []
      else cur # findall_words cs [])"

text \<open>
  \<open>Counter(words)\<close> is a dictionary, which keeps its keys in the order of their first
  insertion: an association list, a new word appended, a known word counted in place.
\<close>

fun counter_add :: "(string \<times> int) list \<Rightarrow> string \<Rightarrow> (string \<times> int) list" where
  "counter_add [] w = [(w, 1)]"
| "counter_add ((v, n) # rest) w =
     (if v = w then (v, n + 1) # rest else (v, n) # counter_add rest w)"

definition Counter :: "string list \<Rightarrow> (string \<times> int) list" where
  "Counter ws = foldl counter_add [] ws"

text \<open>
  \<open>most_common(k)\<close> is \<open>heapq.nlargest(k, items, key=count)\<close>, documented as
  \<open>sorted(items, key=count, reverse=True)[:k]\<close>: a stable sort by descending count, so
  that words of equal count stay in the order of the dictionary, cut to the first \<open>k\<close>
  entries (none when \<open>k \<le> 0\<close>).
\<close>

definition most_common :: "(string \<times> int) list \<Rightarrow> int \<Rightarrow> (string \<times> int) list" where
  "most_common items k = take (nat k) (sort_key (\<lambda>(w, n). - n) items)"

definition find_top_k_frequent_words :: "string \<Rightarrow> int \<Rightarrow> (string \<times> int) list" where
  "find_top_k_frequent_words text k =
     (let ws = findall_words (lower text) [] in most_common (Counter ws) k)"

section \<open>FileProcessor.copy_directory\<close>

text \<open>
  The file system the function acts on. A path is the list of its components from the
  root, and the file system lists every path that names something, with what it names:
  a regular file with its contents, a directory, or a symbolic link whose target does
  not exist. The entries are kept in a list, whose order is the order in which a
  directory is listed. Links with a target, permissions and the current directory are
  not modelled. The \<open>logged\<close> field holds the records written to the log.
\<close>

type_synonym path = "string list"

datatype node = File string | Dir | Dangling

type_synonym files = "(path \<times> node) list"

record world =
  files :: files
  logged :: "log_record list"

definition log_to :: "level \<Rightarrow> string \<Rightarrow> world \<Rightarrow> world" where
  "log_to lv msg w = w\<lparr>logged := logged w @ [(lv, msg)]\<rparr>"

definition path_str :: "path \<Rightarrow> string" where
  "path_str p = concat (map (\<lambda>c. CHR ''/'' # c) p)"

definition basename :: "path \<Rightarrow> string" where
  "basename p = (if p = [] then [] else last p)"

definition lookup :: "files \<Rightarrow> path \<Rightarrow> node option" where
  "lookup fs p = (if p = [] then Some Dir else map_of fs p)"

text \<open>\<open>Path.exists\<close> and \<open>Path.is_dir\<close> follow links: both are false for a dangling link.\<close>

definition path_exists :: "files \<Rightarrow> path \<Rightarrow> bool" where
  "path_exists fs p = (case lookup fs p of Some (File c) \<Rightarrow> True | Some Dir \<Rightarrow> True | _ \<Rightarrow> False)"

definition is_dir :: "files \<Rightarrow> path \<Rightarrow> bool" where
  "is_dir fs p = (lookup fs p = Some Dir)"

text \<open>
  \<open>Path.mkdir(parents=True, exist_ok=True)\<close>: every missing directory on the way down
  to the path is created; a component that exists and is not a directory raises.
  \<open>pre\<close> is the part of the path already known to be a directory.
\<close>

fun mkdirs :: "files \<Rightarrow> path \<Rightarrow> string list \<Rightarrow> error + files" where
  "mkdirs fs pre [] = Inr fs"
| "mkdirs fs pre (c # cs) =
     (case lookup fs (pre @ [c]) of
        None \<Rightarrow> mkdirs (AList.update (pre @ [c]) Dir fs) (pre @ [c]) cs
      | Some Dir \<Rightarrow> mkdirs fs (pre @ [c]) cs
      | Some (File x) \<Rightarrow> Inl (if cs = [] then FileExistsError else NotADirectoryError)
      | Some Dangling \<Rightarrow> Inl FileExistsError)"

definition mkdir_parents :: "files \<Rightarrow> path \<Rightarrow> error + files" where
  "mkdir_parents fs p = mkdirs fs [] p"

text \<open>\<open>Path.iterdir\<close>: the entries of a directory, as full paths.\<close>

definition iterdir :: "files \<Rightarrow> path \<Rightarrow> error + path list" where
  "iterdir fs p =
     (case lookup fs p of
        Some Dir \<Rightarrow> Inr (filter (\<lambda>q. q \<noteq> [] \<and> butlast q = p) (map fst fs))
      | Some (File c) \<Rightarrow> Inl NotADirectoryError
      | _ \<Rightarrow> Inl FileNotFoundError)"

text \<open>
  \<open>shutil.copy2(src, dst)\<close>: a destination that is a directory stands for the file of
  the source's name inside it; copying a file onto itself raises; the source is opened
  for reading, then the destination for writing, which creates it or replaces its
  contents (written through a dangling link, the path names a file from then on).
  File metadata is not modelled.
\<close>

definition copy2 :: "files \<Rightarrow> path \<Rightarrow> path \<Rightarrow> error + files" where
  "copy2 fs src dst0 =
     (let dst = (if is_dir fs dst0 then dst0 @ [basename src] else dst0)
      in if src = dst \<and> path_exists fs src then Inl SameFileError
         else case lookup fs src of
                None \<Rightarrow> Inl FileNotFoundError
              | Some Dangling \<Rightarrow> Inl FileNotFoundError
              | Some Dir \<Rightarrow> Inl IsADirectoryError
              | Some (File c) \<Rightarrow>
                  (case lookup fs dst of
                     Some Dir \<Rightarrow> Inl IsADirectoryError
                   | Some n \<Rightarrow> Inr (AList.update dst (File c) fs)
                   | None \<Rightarrow>
                       (case lookup fs (butlast dst) of
                          Some Dir \<Rightarrow> Inr (AList.update dst (File c) fs)
                        | Some (File x) \<Rightarrow> Inl NotADirectoryError
                        | _ \<Rightarrow> Inl FileNotFoundError)))"

text \<open>
  \<open>copy_directory\<close> calls itself for every subdirectory, and nothing in it bounds the
  depth of these calls: with the target inside the source each call creates the
  directory that the next one descends into. The first argument bounds the depth;
  \<open>None\<close> is a run that needs more. A run that ends is \<open>Some (exc, w)\<close>: the exception
  raised, if any, and the world it leaves. \<open>copy_items\<close> is the loop over the entries
  of the source.
\<close>

fun copy_directory :: "nat \<Rightarrow> world \<Rightarrow> path \<Rightarrow> path \<Rightarrow> (error option \<times> world) option"
  and copy_items :: "nat \<Rightarrow> world \<Rightarrow> path list \<Rightarrow> path \<Rightarrow> (error option \<times> world) option"
where
  "copy_directory 0 w source_path target_path = None"
| "copy_directory (Suc n) w source_path target_path =
     (if \<not> path_exists (files w) source_path
      then Some (Some FileNotFoundError,
                 log_to ERROR (''Source directory not found: '' @ path_str source_path) w)
      else case mkdir_parents (files w) target_path of
             Inl e \<Rightarrow> Some (Some e, w)
           | Inr fs1 \<Rightarrow>
               (let w1 = log_to INFO (''Created/verified target directory: '' @ path_str target_path)
                           (w\<lparr>files := fs1\<rparr>)
                in case iterdir fs1 source_path of
                     Inl e \<Rightarrow> Some (Some e, w1)
                   | Inr items \<Rightarrow> copy_items n w1 items target_path))"
| "copy_items n w [] target_path = Some (None, w)"
| "copy_items n w (item # items) target_path =
     (let target_item = target_path @ [basename item]
      in if is_dir (files w) item
         then (case copy_directory n w item target_item of
                 None \<Rightarrow> None
               | Some (Some e, w') \<Rightarrow> Some (Some e, w')
               | Some (None, w') \<Rightarrow> copy_items n w' items target_path)
         else (case copy2 (files w) item target_item of
                 Inl e \<Rightarrow> Some (Some e, w)
               | Inr fs' \<Rightarrow>
                   copy_items n (log_to INFO (''Copied file: '' @ basename item) (w\<lparr>files := fs'\<rparr>))
                     items target_path))"

subsection \<open>Notions for the statements about \<open>copy_directory\<close>\<close>

text \<open>
  A file system is well formed when no path is listed twice and everything listed lies
  in a directory: the parent of every entry is the root or an entry that is a
  directory.
\<close>

definition well_formed :: "files \<Rightarrow> bool" where
  "well_formed fs =
     (distinct (map fst fs) \<and> list_all (\<lambda>p. p \<noteq> [] \<and> is_dir fs (butlast p)) (map fst fs))"

text \<open>The entries of a directory, in listing order: what \<open>iterdir\<close> returns for it.\<close>

definition children :: "files \<Rightarrow> path \<Rightarrow> path list" where
  "children fs p = filter (\<lambda>q. q \<noteq> [] \<and> butlast q = p) (map fst fs)"

text \<open>
  \<open>changes_within R fs fs'\<close>: going from \<open>fs\<close> to \<open>fs'\<close>, only paths satisfying \<open>R\<close>
  have changed what they name, and only such paths have been added to the listing, at
  its end.
\<close>

definition changes_within :: "(path \<Rightarrow> bool) \<Rightarrow> files \<Rightarrow> files \<Rightarrow> bool" where
  "changes_within R fs fs' =
     ((\<forall>p. \<not> R p \<longrightarrow> lookup fs' p = lookup fs p)
      \<and> (\<exists>ks. map fst fs' = map fst fs @ ks \<and> (\<forall>k\<in>set ks. R k)))"

text \<open>\<open>under t N p\<close>: the path \<open>p\<close> lies below \<open>t\<close>, in or at an entry of \<open>t\<close> named in \<open>N\<close>.\<close>

definition under :: "path \<Rightarrow> string set \<Rightarrow> path \<Rightarrow> bool" where
  "under t N p = (\<exists>rel. p = t @ rel \<and> rel \<noteq> [] \<and> hd rel \<in> N)"

text \<open>
  \<open>mirrored N s t fs fs'\<close>: for what \<open>fs\<close> holds below \<open>s\<close> in the entries named in \<open>N\<close>,
  \<open>fs'\<close> holds a directory at the same place below \<open>t\<close> for every directory, and a file
  of the same contents for every file whose place below \<open>t\<close> was not a directory.
\<close>

definition mirrored :: "string set \<Rightarrow> path \<Rightarrow> path \<Rightarrow> files \<Rightarrow> files \<Rightarrow> bool" where
  "mirrored N s t fs fs' =
     (\<forall>rel. rel \<noteq> [] \<and> hd rel \<in> N \<longrightarrow>
        (is_dir fs (s @ rel) \<longrightarrow> is_dir fs' (t @ rel))
        \<and> (\<forall>c. lookup fs (s @ rel) = Some (File c) \<and> \<not> is_dir fs (t @ rel)
               \<longrightarrow> lookup fs' (t @ rel) = Some (File c)))"

definition copied :: "string set \<Rightarrow> path \<Rightarrow> path \<Rightarrow> files \<Rightarrow> files \<Rightarrow> bool" where
  "copied N s t fs fs' =
     (well_formed fs' \<and> changes_within (under t N) fs fs' \<and> mirrored N s t fs fs')"

text \<open>\<open>shallow fs s n\<close>: no directory lies more than \<open>n\<close> levels below \<open>s\<close>.\<close>

definition shallow :: "files \<Rightarrow> path \<Rightarrow> nat \<Rightarrow> bool" where
  "shallow fs s n = (\<forall>rel. rel \<noteq> [] \<and> is_dir fs (s @ rel) \<longrightarrow> length rel \<le> n)"

text \<open>A small tree: a source with a file and a subdirectory, a target with an older file.\<close>

definition example_world :: world where
  "example_world =
     \<lparr>files = [([''src''], Dir), ([''src'', ''a.txt''], File ''hello''),
               ([''src'', ''sub''], Dir), ([''src'', ''sub'', ''b.txt''], File ''bee''),
               ([''dst''], Dir), ([''dst'', ''a.txt''], File ''old'')],
      logged = []\<rparr>"

section \<open>DataStorage: theorems\<close>

lemma data_logging_info: "data (logging_info msg s) = data s"
  by (simp add: logging_info_def)

lemma delete_present:
  "data s key \<noteq> None \<Longrightarrow>
   delete s key = Inr (logging_info (''Deleted key: '' @ key) (s\<lparr>data := (data s)(key := None)\<rparr>))"
  by (simp add: delete_def dict_del_def)

lemma delete_absent: "data s key = None \<Longrightarrow> delete s key = Inr s"
  by (simp add: delete_def)

text \<open>
  C6. From any storage state, \<open>add(k, v)\<close> followed by \<open>delete(k)\<close> raises nothing, and
  then \<open>get(k)\<close> returns the string \<open>Key not found\<close> and the dictionary returned by
  \<open>list()\<close>, called before or after that \<open>get\<close>, has no entry for \<open>k\<close>.
\<close>

theorem add_delete_get_list:
  "\<exists>s'. delete (add s k v) k = Inr s'
        \<and> fst (get s' k) = ''Key not found''
        \<and> fst (list_all_data s') k = None
        \<and> fst (list_all_data (snd (get s' k))) k = None"
proof -
  have present: "data (add s k v) k \<noteq> None"
    by (simp add: add_def data_logging_info)
  let ?s' = "logging_info (''Deleted key: '' @ k)
               ((add s k v)\<lparr>data := (data (add s k v))(k := None)\<rparr>)"
  have "delete (add s k v) k = Inr ?s'"
    using present by (rule delete_present)
  moreover have "data ?s' k = None"
    by (simp add: data_logging_info)
  ultimately show ?thesis
    by (simp add: get_def dict_get_def list_all_data_def data_logging_info)
qed

text \<open>
  C9. \<open>delete(k)\<close> never raises; it leaves the entry of every other key \<open>j\<close> as it was;
  and when \<open>k\<close> is absent it returns the state unchanged (same mapping, nothing logged).
\<close>

theorem delete_frame:
  "(\<exists>s'. delete s k = Inr s' \<and> (\<forall>j. j \<noteq> k \<longrightarrow> data s' j = data s j))
   \<and> (data s k = None \<longrightarrow> delete s k = Inr s)"
proof (cases "data s k = None")
  case True
  then show ?thesis by (simp add: delete_absent)
next
  case False
  then have "delete s k = Inr (logging_info (''Deleted key: '' @ k) (s\<lparr>data := (data s)(k := None)\<rparr>))"
    by (rule delete_present)
  with False show ?thesis by (auto simp: data_logging_info)
qed

theorem delete_frame_witness:
  "(\<exists>s'. delete (add init ''a'' ''1'') ''b'' = Inr s'
         \<and> (''a'' \<noteq> ''b'' \<longrightarrow> data s' ''a'' = Some ''1''))
   \<and> data (add init ''a'' ''1'') ''b'' = None
   \<and> delete (add init ''a'' ''1'') ''b'' = Inr (add init ''a'' ''1'')"
proof -
  have absent: "data (add init ''a'' ''1'') ''b'' = None"
    by (simp add: add_def init_def data_logging_info)
  have stored: "data (add init ''a'' ''1'') ''a'' = Some ''1''"
    by (simp add: add_def data_logging_info)
  from delete_frame [of "add init ''a'' ''1''" "''b''"] absent stored
  show ?thesis by auto
qed

text \<open>
  C10. The sentinel is not distinguishable from data: after \<open>add(k, "Key not found")\<close> the
  key is present, yet \<open>get(k)\<close> returns the same string that it returns for a key that is
  absent (as every key is in the freshly constructed store).
\<close>

theorem sentinel_ambiguous:
  "data (add s k ''Key not found'') k = Some ''Key not found''
   \<and> fst (get (add s k ''Key not found'') k) = ''Key not found''
   \<and> data init k = None
   \<and> fst (get init k) = ''Key not found''"
  by (simp add: add_def init_def get_def dict_get_def data_logging_info)

section \<open>Word frequencies: theorems\<close>

text \<open>
  C7. On the text \<open>Hello world! Hello everyone. This is a simple test. Test, test, hello.\<close>
  with \<open>k = 2\<close>, \<open>find_top_k_frequent_words\<close> returns exactly two pairs, whose words are
  \<open>test\<close> and \<open>hello\<close> and whose counts are both 3; the tokens are the lower-cased
  runs of word characters. (The order returned is \<open>hello\<close> first, the word met first.)
\<close>

theorem top_two_words:
  "findall_words (lower ''Hello world! Hello everyone. This is a simple test. Test, test, hello.'') []
     = [''hello'', ''world'', ''hello'', ''everyone'', ''this'', ''is'', ''a'', ''simple'',
        ''test'', ''test'', ''test'', ''hello'']
   \<and> length (find_top_k_frequent_words
        ''Hello world! Hello everyone. This is a simple test. Test, test, hello.'' 2) = 2
   \<and> set (map fst (find_top_k_frequent_words
        ''Hello world! Hello everyone. This is a simple test. Test, test, hello.'' 2))
       = {''test'', ''hello''}
   \<and> map snd (find_top_k_frequent_words
        ''Hello world! Hello everyone. This is a simple test. Test, test, hello.'' 2) = [3, 3]
   \<and> find_top_k_frequent_words
        ''Hello world! Hello everyone. This is a simple test. Test, test, hello.'' 2
       = [(''hello'', 3), (''test'', 3)]"
proof -
  have tokens:
    "findall_words (lower ''Hello world! Hello everyone. This is a simple test. Test, test, hello.'') []
       = [''hello'', ''world'', ''hello'', ''everyone'', ''this'', ''is'', ''a'', ''simple'',
          ''test'', ''test'', ''test'', ''hello'']"
    by code_simp
  have top:
    "find_top_k_frequent_words
        ''Hello world! Hello everyone. This is a simple test. Test, test, hello.'' 2
       = [(''hello'', 3), (''test'', 3)]"
    by code_simp
  have "{''hello'', ''test''} = {''test'', ''hello''}"
    by (rule insert_commute)
  with tokens top show ?thesis
    by simp
qed

section \<open>Polygon collision: theorems\<close>

subsection \<open>No step raises\<close>

lemma on_ok_Inr: "on_ok (Inr x) f = f x"
  by (simp add: on_ok_def)

lemma on_ok_Inl: "on_ok (Inl e) f = Inl e"
  by (simp add: on_ok_def)

lemma py_index_nat: "i < length xs \<Longrightarrow> py_index xs (int i) = Inr (xs ! i)"
  by (simp add: py_index_def)

lemma py_index_in_range:
  "- int (length xs) \<le> j \<Longrightarrow> j < int (length xs) \<Longrightarrow> \<exists>v. py_index xs j = Inr v"
  by (simp add: py_index_def Let_def)

lemma toggles_total: "\<exists>b. toggles p vi vj = Inr b"
  by (cases p) (auto simp: toggles_def py_truediv_def on_ok_Inr)

lemma pip_loop_total:
  "\<forall>i\<in>set inds. i < length poly \<Longrightarrow>
   (inds \<noteq> [] \<longrightarrow> - int (length poly) \<le> j \<and> j < int (length poly)) \<Longrightarrow>
   \<exists>b. pip_loop p poly inds j inside = Inr b"
proof (induction inds arbitrary: j inside)
  case Nil
  show ?case by simp
next
  case (Cons i rest)
  from Cons.prems have i: "i < length poly" by simp
  from Cons.prems obtain vj where vj: "py_index poly j = Inr vj"
    using py_index_in_range [of poly j] by auto
  obtain t where t: "toggles p (poly ! i) vj = Inr t"
    using toggles_total by blast
  have "\<exists>b. pip_loop p poly rest (int i) (if t then \<not> inside else inside) = Inr b"
    using Cons.prems i by (intro Cons.IH) auto
  then show ?case
    by (simp add: py_index_nat [OF i] vj t on_ok_Inr)
qed

lemma point_in_polygon_total: "\<exists>b. point_in_polygon p poly = Inr b"
  unfolding point_in_polygon_def
  by (rule pip_loop_total) auto

lemma any_inside_eq:
  "any_inside ps poly = Inr (\<exists>p\<in>set ps. point_in_polygon p poly = Inr True)"
proof (induction ps)
  case Nil
  show ?case by simp
next
  case (Cons p ps)
  obtain b where b: "point_in_polygon p poly = Inr b"
    using point_in_polygon_total by blast
  show ?case
    by (cases b) (simp_all add: b on_ok_Inr Cons.IH)
qed

lemma collect_total:
  "\<forall>x\<in>set xs. \<exists>y. f x = Inr y \<Longrightarrow> \<exists>ys. collect f xs = Inr ys"
proof (induction xs)
  case Nil
  show ?case by simp
next
  case (Cons x xs)
  then obtain y ys where "f x = Inr y" "collect f xs = Inr ys" by auto
  then show ?case by (simp add: on_ok_Inr)
qed

lemma get_edges_total: "\<exists>es. get_edges poly = Inr es"
  unfolding get_edges_def
proof (rule collect_total, rule ballI)
  fix i assume "i \<in> set [0..<length poly]"
  then have i: "i < length poly" by simp
  then have n: "int (length poly) \<noteq> 0" by auto
  have "(int i + 1) mod int (length poly) = int ((i + 1) mod length poly)"
    by (simp add: zmod_int add.commute)
  moreover have "(i + 1) mod length poly < length poly"
    using i by (intro mod_less_divisor) auto
  ultimately show "\<exists>y. on_ok (py_index poly (int i)) (\<lambda>a.
                   on_ok (py_mod (int i + 1) (int (length poly))) (\<lambda>k.
                   on_ok (py_index poly k) (\<lambda>b. Inr (a, b)))) = Inr y"
    using i n by (simp add: py_index_nat py_mod_def on_ok_Inr)
qed

subsection \<open>Symmetry of the segment test\<close>

lemma ccw_rotate: "ccw A B C = ccw B C A"
  by (simp add: ccw_def algebra_simps)

lemma line_segments_intersect_sym:
  "line_segments_intersect e1 e2 = line_segments_intersect e2 e1"
proof (cases e1, cases e2)
  fix A B C D assume e: "e1 = (A, B)" "e2 = (C, D)"
  have "ccw A C D = ccw C D A" "ccw B C D = ccw C D B"
       "ccw A B C = ccw C A B" "ccw A B D = ccw D A B"
    using ccw_rotate by blast+
  then show ?thesis
    by (auto simp: e line_segments_intersect_def)
qed

lemma any_edges_intersect_sym: "any_edges_intersect es1 es2 = any_edges_intersect es2 es1"
  unfolding any_edges_intersect_def list_ex_iff
  using line_segments_intersect_sym by blast


subsection \<open>The result as a disjunction\<close>

lemma check_polygon_collision_eq:
  assumes "get_edges A = Inr edges1" "get_edges B = Inr edges2"
  shows "check_polygon_collision A B =
     Inr ((\<exists>p\<in>set A. point_in_polygon p B = Inr True)
          \<or> (\<exists>p\<in>set B. point_in_polygon p A = Inr True)
          \<or> any_edges_intersect edges1 edges2)"
  by (simp add: check_polygon_collision_def any_inside_eq on_ok_Inr assms)


text \<open>The equations that evaluate the collider on a concrete pair of polygons.\<close>

lemmas ev = check_polygon_collision_def any_inside.simps point_in_polygon_def pip_loop.simps
  on_ok_def py_index_def py_truediv_def py_mod_def toggles_def get_edges_def collect.simps
  any_edges_intersect_def line_segments_intersect_def ccw_def upt_rec Let_def





text \<open>
  C4. The square \<open>[1,2] \<times> [1,2]\<close> inside the square \<open>[0,5] \<times> [0,5]\<close> collides, and it is
  the first vertex loop that returns true, no pair of their edges passing the segment
  test; the unit squares at the origin and at \<open>(10, 10)\<close> do not collide; the squares
  \<open>[0,4] \<times> [0,4]\<close> and \<open>[2,6] \<times> [2,6]\<close> collide.
\<close>

theorem collision_examples:
  "check_polygon_collision [(1,1),(2,1),(2,2),(1,2)] [(0,0),(5,0),(5,5),(0,5)] = Inr True
   \<and> any_inside [(1,1),(2,1),(2,2),(1,2)] [(0,0),(5,0),(5,5),(0,5)] = Inr True
   \<and> get_edges [(1,1),(2,1),(2,2),(1,2)]
        = Inr [((1,1),(2,1)), ((2,1),(2,2)), ((2,2),(1,2)), ((1,2),(1,1))]
   \<and> get_edges [(0,0),(5,0),(5,5),(0,5)]
        = Inr [((0,0),(5,0)), ((5,0),(5,5)), ((5,5),(0,5)), ((0,5),(0,0))]
   \<and> any_edges_intersect [((1,1),(2,1)), ((2,1),(2,2)), ((2,2),(1,2)), ((1,2),(1,1))]
        [((0,0),(5,0)), ((5,0),(5,5)), ((5,5),(0,5)), ((0,5),(0,0))] = False
   \<and> check_polygon_collision [(0,0),(1,0),(1,1),(0,1)] [(10,10),(11,10),(11,11),(10,11)] = Inr False
   \<and> check_polygon_collision [(0,0),(4,0),(4,4),(0,4)] [(2,2),(6,2),(6,6),(2,6)] = Inr True"
  by (simp add: ev)

subsection \<open>Rectangles: the collider against the geometry\<close>

lemma pip_rectangle:
  "x1 < x2 \<Longrightarrow> y1 < y2 \<Longrightarrow>
   point_in_polygon (x, y) (rectangle x1 y1 x2 y2) = Inr (x1 \<le> x \<and> x < x2 \<and> y1 \<le> y \<and> y < y2)"
  by (auto simp: rectangle_def point_in_polygon_def on_ok_def py_index_def py_truediv_def
        toggles_def upt_rec Let_def)

lemma get_edges_rectangle:
  "get_edges (rectangle x1 y1 x2 y2) =
     Inr [((x1, y1), (x2, y1)), ((x2, y1), (x2, y2)), ((x2, y2), (x1, y2)), ((x1, y2), (x1, y1))]"
  by (simp add: rectangle_def get_edges_def on_ok_def py_index_def py_mod_def upt_rec Let_def)

lemma hv: "line_segments_intersect ((p, h), (q, h)) ((v, r), (v, s)) =
   (((s - r) * (v - p) > 0) \<noteq> ((s - r) * (v - q) > 0) \<and> ((r - h) * (q - p) > 0) \<noteq> ((s - h) * (q - p) > 0))"
  by (simp add: line_segments_intersect_def ccw_def algebra_simps)

lemma vh: "line_segments_intersect ((v, r), (v, s)) ((p, h), (q, h)) =
   (((s - r) * (v - p) > 0) \<noteq> ((s - r) * (v - q) > 0) \<and> ((r - h) * (q - p) > 0) \<noteq> ((s - h) * (q - p) > 0))"
  using hv line_segments_intersect_sym by blast

lemma hh: "line_segments_intersect ((p, h), (q, h)) ((a, k), (b, k)) = False"
  by (simp add: line_segments_intersect_def ccw_def algebra_simps)

lemma vv: "line_segments_intersect ((h, p), (h, q)) ((k, a), (k, b)) = False"
  by (simp add: line_segments_intersect_def ccw_def algebra_simps)


lemma regions_disjoint:
  assumes "x1 < x2" "y1 < y2" "u1 < u2" "v1 < v2"
    and "rectangle_region x1 y1 x2 y2 \<inter> rectangle_region u1 v1 u2 v2 = {}"
  shows "x2 < u1 \<or> u2 < x1 \<or> y2 < v1 \<or> v2 < y1"
proof (rule ccontr)
  assume "\<not> ?thesis"
  then have "(max x1 u1, max y1 v1) \<in> rectangle_region x1 y1 x2 y2 \<inter> rectangle_region u1 v1 u2 v2"
    using assms(1-4) by (auto simp: rectangle_region_def)
  with assms(5) show False by blast
qed

lemma interiors_overlap:
  assumes "rectangle_interior x1 y1 x2 y2 \<inter> rectangle_interior u1 v1 u2 v2 \<noteq> {}"
  shows "x1 < u2 \<and> u1 < x2 \<and> y1 < v2 \<and> v1 < y2"
  using assms by (auto simp: rectangle_interior_def)

lemma rectangles_closed_form:
  assumes "x1 < x2" "y1 < y2" "u1 < u2" "v1 < v2"
  shows "check_polygon_collision (rectangle x1 y1 x2 y2) (rectangle u1 v1 u2 v2) =
    Inr (((u1 \<le> x1 \<and> x1 < u2 \<or> u1 \<le> x2 \<and> x2 < u2) \<and> (v1 \<le> y1 \<and> y1 < v2 \<or> v1 \<le> y2 \<and> y2 < v2))
       \<or> ((x1 \<le> u1 \<and> u1 < x2 \<or> x1 \<le> u2 \<and> u2 < x2) \<and> (y1 \<le> v1 \<and> v1 < y2 \<or> y1 \<le> v2 \<and> v2 < y2))
       \<or> any_edges_intersect
            [((x1, y1), (x2, y1)), ((x2, y1), (x2, y2)), ((x2, y2), (x1, y2)), ((x1, y2), (x1, y1))]
            [((u1, v1), (u2, v1)), ((u2, v1), (u2, v2)), ((u2, v2), (u1, v2)), ((u1, v2), (u1, v1))])"
proof -
  have a: "(\<exists>p\<in>set (rectangle x1 y1 x2 y2). point_in_polygon p (rectangle u1 v1 u2 v2) = Inr True)
     = ((u1 \<le> x1 \<and> x1 < u2 \<or> u1 \<le> x2 \<and> x2 < u2) \<and> (v1 \<le> y1 \<and> y1 < v2 \<or> v1 \<le> y2 \<and> y2 < v2))"
    unfolding rectangle_def [of x1 y1 x2 y2]
    using assms by (auto simp: pip_rectangle)
  have b: "(\<exists>p\<in>set (rectangle u1 v1 u2 v2). point_in_polygon p (rectangle x1 y1 x2 y2) = Inr True)
     = ((x1 \<le> u1 \<and> u1 < x2 \<or> x1 \<le> u2 \<and> u2 < x2) \<and> (y1 \<le> v1 \<and> v1 < y2 \<or> y1 \<le> v2 \<and> v2 < y2))"
    unfolding rectangle_def [of u1 v1 u2 v2]
    using assms by (auto simp: pip_rectangle)
  show ?thesis
    unfolding check_polygon_collision_eq [OF get_edges_rectangle get_edges_rectangle] a b ..
qed


lemma rectangle_edges_cross:
  assumes "x1 < x2" "y1 < y2" "u1 < u2" "v1 < v2"
  shows "any_edges_intersect
            [((x1, y1), (x2, y1)), ((x2, y1), (x2, y2)), ((x2, y2), (x1, y2)), ((x1, y2), (x1, y1))]
            [((u1, v1), (u2, v1)), ((u2, v1), (u2, v2)), ((u2, v2), (u1, v2)), ((u1, v2), (u1, v1))]
      = ((x1 < u2 \<and> u2 \<le> x2 \<and> v1 \<le> y1 \<and> y1 < v2)
       \<or> (x1 \<le> u1 \<and> u1 < x2 \<and> v1 \<le> y1 \<and> y1 < v2)
       \<or> (u1 < x2 \<and> x2 \<le> u2 \<and> y1 \<le> v1 \<and> v1 < y2)
       \<or> (u1 < x2 \<and> x2 \<le> u2 \<and> y1 < v2 \<and> v2 \<le> y2)
       \<or> (x1 < u2 \<and> u2 \<le> x2 \<and> v1 < y2 \<and> y2 \<le> v2)
       \<or> (x1 \<le> u1 \<and> u1 < x2 \<and> v1 < y2 \<and> y2 \<le> v2)
       \<or> (u1 \<le> x1 \<and> x1 < u2 \<and> y1 \<le> v1 \<and> v1 < y2)
       \<or> (u1 \<le> x1 \<and> x1 < u2 \<and> y1 < v2 \<and> v2 \<le> y2))"
proof -
  have bot_right: "line_segments_intersect ((x1, y1), (x2, y1)) ((u2, v1), (u2, v2))
      = (x1 < u2 \<and> u2 \<le> x2 \<and> v1 \<le> y1 \<and> y1 < v2)"
    using assms unfolding hv by (auto simp: zero_less_mult_iff)
  have bot_left: "line_segments_intersect ((x1, y1), (x2, y1)) ((u1, v2), (u1, v1))
      = (x1 \<le> u1 \<and> u1 < x2 \<and> v1 \<le> y1 \<and> y1 < v2)"
    using assms unfolding hv by (auto simp: zero_less_mult_iff)
  have top_right: "line_segments_intersect ((x2, y2), (x1, y2)) ((u2, v1), (u2, v2))
      = (x1 < u2 \<and> u2 \<le> x2 \<and> v1 < y2 \<and> y2 \<le> v2)"
    using assms unfolding hv by (auto simp: zero_less_mult_iff)
  have top_left: "line_segments_intersect ((x2, y2), (x1, y2)) ((u1, v2), (u1, v1))
      = (x1 \<le> u1 \<and> u1 < x2 \<and> v1 < y2 \<and> y2 \<le> v2)"
    using assms unfolding hv by (auto simp: zero_less_mult_iff)
  have right_bot: "line_segments_intersect ((x2, y1), (x2, y2)) ((u1, v1), (u2, v1))
      = (u1 < x2 \<and> x2 \<le> u2 \<and> y1 \<le> v1 \<and> v1 < y2)"
    using assms unfolding vh by (auto simp: zero_less_mult_iff)
  have left_bot: "line_segments_intersect ((x1, y2), (x1, y1)) ((u1, v1), (u2, v1))
      = (u1 \<le> x1 \<and> x1 < u2 \<and> y1 \<le> v1 \<and> v1 < y2)"
    using assms unfolding vh by (auto simp: zero_less_mult_iff)
  have right_top: "line_segments_intersect ((x2, y1), (x2, y2)) ((u2, v2), (u1, v2))
      = (u1 < x2 \<and> x2 \<le> u2 \<and> y1 < v2 \<and> v2 \<le> y2)"
    using assms unfolding vh by (auto simp: zero_less_mult_iff)
  have left_top: "line_segments_intersect ((x1, y2), (x1, y1)) ((u2, v2), (u1, v2))
      = (u1 \<le> x1 \<and> x1 < u2 \<and> y1 < v2 \<and> v2 \<le> y2)"
    using assms unfolding vh by (auto simp: zero_less_mult_iff)
  show ?thesis
    by (simp only: any_edges_intersect_def list_ex_Nil_iff list_ex_Cons_iff hh vv bot_right bot_left top_right
          top_left right_bot left_bot right_top left_top disj_assoc simp_thms)
qed





section \<open>copy_directory: theorems\<close>

subsection \<open>Lookups, updates and well-formedness\<close>

lemma files_log_to: "files (log_to lv msg w) = files w"
  by (simp add: log_to_def)

lemma lookup_update:
  "k \<noteq> [] \<Longrightarrow> lookup (AList.update k v fs) p = (if p = k then Some v else lookup fs p)"
  by (simp add: lookup_def update_conv')

lemma lookup_None_iff: "p \<noteq> [] \<Longrightarrow> lookup fs p = None \<longleftrightarrow> p \<notin> set (map fst fs)"
  by (simp add: lookup_def map_of_eq_None_iff)

lemma lookup_Nil: "lookup fs [] = Some Dir"
  by (simp add: lookup_def)

lemma well_formedD:
  "well_formed fs \<Longrightarrow> p \<in> set (map fst fs) \<Longrightarrow> p \<noteq> [] \<and> is_dir fs (butlast p)"
  by (auto simp: well_formed_def list_all_iff)

lemma well_formed_parent:
  assumes "well_formed fs" "lookup fs (p @ [x]) \<noteq> None"
  shows "is_dir fs p"
proof -
  have "p @ [x] \<in> set (map fst fs)"
    using assms(2) lookup_None_iff [of "p @ [x]" fs] by simp
  from well_formedD [OF assms(1) this] show ?thesis by simp
qed

lemma well_formed_ancestors:
  assumes "well_formed fs"
  shows "lookup fs (p @ rel) \<noteq> None \<Longrightarrow> rel \<noteq> [] \<Longrightarrow> is_dir fs p"
proof (induction rel rule: rev_induct)
  case Nil
  then show ?case by simp
next
  case (snoc x rel)
  have par: "is_dir fs (p @ rel)"
    using well_formed_parent [OF assms, of "p @ rel" x] snoc.prems by simp
  show ?case
  proof (cases "rel = []")
    case True
    with par show ?thesis by simp
  next
    case False
    with par snoc.IH show ?thesis by (simp add: is_dir_def)
  qed
qed

lemma well_formed_update:
  assumes wf: "well_formed fs" and k: "k \<noteq> []" and par: "is_dir fs (butlast k)"
    and nd: "lookup fs k \<noteq> Some Dir"
  shows "well_formed (AList.update k v fs)"
proof -
  have d: "distinct (map fst (AList.update k v fs))"
    using wf by (simp add: well_formed_def distinct_update)
  have "p \<noteq> [] \<and> is_dir (AList.update k v fs) (butlast p)"
    if p: "p \<in> set (map fst (AList.update k v fs))" for p
  proof -
    have "p = k \<or> p \<in> set (map fst fs)"
      using p by (auto simp: update_keys split: if_splits)
    then have pp: "p \<noteq> [] \<and> is_dir fs (butlast p)"
      using k par well_formedD [OF wf] by auto
    then have "butlast p \<noteq> k"
      using nd by (auto simp: is_dir_def)
    with pp k show ?thesis
      by (simp add: is_dir_def lookup_update)
  qed
  with d show ?thesis
    by (simp add: well_formed_def list_all_iff)
qed

subsection \<open>What a step may change\<close>

lemma changes_within_refl: "changes_within R fs fs"
  by (simp add: changes_within_def)

lemma changes_within_mono:
  "changes_within R fs fs' \<Longrightarrow> (\<And>p. R p \<Longrightarrow> S p) \<Longrightarrow> changes_within S fs fs'"
  unfolding changes_within_def by blast

lemma changes_within_trans:
  assumes "changes_within R fs fs'" "changes_within R fs' fs''"
  shows "changes_within R fs fs''"
proof -
  from assms obtain ks ks' where
    "map fst fs' = map fst fs @ ks" "\<forall>k\<in>set ks. R k"
    "map fst fs'' = map fst fs' @ ks'" "\<forall>k\<in>set ks'. R k"
    unfolding changes_within_def by blast
  then have "map fst fs'' = map fst fs @ (ks @ ks') \<and> (\<forall>k\<in>set (ks @ ks'). R k)"
    by auto
  then have "\<exists>ks. map fst fs'' = map fst fs @ ks \<and> (\<forall>k\<in>set ks. R k)"
    by blast
  moreover have "\<forall>p. \<not> R p \<longrightarrow> lookup fs'' p = lookup fs p"
    using assms unfolding changes_within_def by simp
  ultimately show ?thesis
    unfolding changes_within_def by blast
qed

lemma changes_within_update:
  assumes "k \<noteq> []" "R k"
  shows "changes_within R fs (AList.update k v fs)"
proof -
  have "\<exists>ks. map fst (AList.update k v fs) = map fst fs @ ks \<and> (\<forall>k\<in>set ks. R k)"
    using assms(2) by (simp add: update_keys)
  moreover have "\<forall>p. \<not> R p \<longrightarrow> lookup (AList.update k v fs) p = lookup fs p"
    using assms by (auto simp: lookup_update)
  ultimately show ?thesis
    unfolding changes_within_def by blast
qed

lemma changes_within_lookup:
  "changes_within R fs fs' \<Longrightarrow> \<not> R p \<Longrightarrow> lookup fs' p = lookup fs p"
  by (simp add: changes_within_def)

lemma changes_within_keys:
  assumes "changes_within R fs fs'"
  shows "set (map fst fs) \<subseteq> set (map fst fs')"
proof -
  from assms obtain ks where "map fst fs' = map fst fs @ ks"
    unfolding changes_within_def by blast
  then have "set (map fst fs') = set (map fst fs) \<union> set ks"
    by (metis set_append)
  then show ?thesis by blast
qed

lemma changes_within_children:
  assumes "changes_within R fs fs'" "\<And>k. R k \<Longrightarrow> k \<noteq> [] \<Longrightarrow> butlast k \<noteq> d"
  shows "children fs' d = children fs d"
proof -
  from assms(1) obtain ks where ks: "map fst fs' = map fst fs @ ks" "\<forall>k\<in>set ks. R k"
    unfolding changes_within_def by blast
  have "filter (\<lambda>q. q \<noteq> [] \<and> butlast q = d) ks = []"
    using ks(2) assms(2) by (auto simp: filter_empty_conv)
  then show ?thesis
    by (simp add: children_def ks(1))
qed

lemma changes_within_is_dir:
  assumes "changes_within R fs fs'" "\<And>p. R p \<Longrightarrow> lookup fs p = None" "is_dir fs p"
  shows "is_dir fs' p"
proof -
  have "\<not> R p"
    using assms(2) [of p] assms(3) by (auto simp: is_dir_def)
  with assms(1,3) show ?thesis
    by (simp add: is_dir_def changes_within_lookup)
qed

subsection \<open>Creating the target directory\<close>

lemma mkdirs_post:
  assumes "well_formed fs" "is_dir fs pre" "mkdirs fs pre cs = Inr fs'"
  shows "well_formed fs'
       \<and> (\<forall>q. prefix pre q \<and> prefix q (pre @ cs) \<longrightarrow> is_dir fs' q)
       \<and> changes_within (\<lambda>p. prefix p (pre @ cs) \<and> lookup fs p = None) fs fs'"
  using assms
proof (induction cs arbitrary: fs pre)
  case Nil
  then show ?case
    by (auto simp: changes_within_refl dest: prefix_order.antisym)
next
  case (Cons c cs)
  let ?k = "pre @ [c]"
  let ?R = "\<lambda>p. prefix p (pre @ c # cs) \<and> lookup fs p = None"
  have "\<exists>fsA. well_formed fsA \<and> is_dir fsA ?k \<and> changes_within ?R fs fsA
          \<and> mkdirs fsA ?k cs = Inr fs' \<and> (\<forall>p. lookup fsA p = None \<longrightarrow> lookup fs p = None)"
  proof (cases "lookup fs ?k")
    case None
    have "well_formed (AList.update ?k Dir fs)"
      using Cons.prems None by (intro well_formed_update) auto
    moreover have "is_dir (AList.update ?k Dir fs) ?k"
      by (simp add: is_dir_def lookup_update)
    moreover have "changes_within ?R fs (AList.update ?k Dir fs)"
      using None by (intro changes_within_update) auto
    moreover have "mkdirs (AList.update ?k Dir fs) ?k cs = Inr fs'"
      using Cons.prems(3) None by simp
    moreover have "\<forall>p. lookup (AList.update ?k Dir fs) p = None \<longrightarrow> lookup fs p = None"
      by (auto simp: lookup_update split: if_splits)
    ultimately show ?thesis by blast
  next
    case (Some nd)
    with Cons.prems(3) have "nd = Dir" "mkdirs fs ?k cs = Inr fs'"
      by (cases nd; simp)+
    with Some Cons.prems(1) show ?thesis
      by (auto simp: is_dir_def changes_within_refl)
  qed
  then obtain fsA where A: "well_formed fsA" "is_dir fsA ?k" "changes_within ?R fs fsA"
      "mkdirs fsA ?k cs = Inr fs'" "\<forall>p. lookup fsA p = None \<longrightarrow> lookup fs p = None"
    by blast
  from Cons.IH [OF A(1,2,4)]
  have IH: "well_formed fs'" "\<forall>q. prefix ?k q \<and> prefix q (?k @ cs) \<longrightarrow> is_dir fs' q"
      "changes_within (\<lambda>p. prefix p (?k @ cs) \<and> lookup fsA p = None) fsA fs'"
    by blast+
  have "changes_within ?R fsA fs'"
    by (rule changes_within_mono [OF IH(3)]) (use A(5) in auto)
  with A(3) have ch: "changes_within ?R fs fs'"
    by (rule changes_within_trans)
  have "is_dir fs' q" if q: "prefix pre q" "prefix q (pre @ c # cs)" for q
  proof (cases "q = pre")
    case True
    show ?thesis
      unfolding True by (rule changes_within_is_dir [OF ch _ Cons.prems(2)]) simp
  next
    case False
    from q(1) obtain r where r: "q = pre @ r"
      by (auto simp: prefix_def)
    with False q(2) have "r \<noteq> []" "prefix r (c # cs)"
      by simp_all
    with r have "prefix ?k q"
      by (cases r) simp_all
    with IH(2) q(2) show ?thesis by simp
  qed
  with IH(1) ch show ?case by blast
qed

lemma mkdir_child:
  assumes wf: "well_formed fs" and t: "is_dir fs t"
    and mk: "mkdir_parents fs (t @ [x]) = Inr fsA"
  shows "well_formed fsA \<and> is_dir fsA (t @ [x]) \<and> changes_within (\<lambda>p. p = t @ [x]) fs fsA"
proof -
  have root: "is_dir fs []"
    by (simp add: is_dir_def lookup_Nil)
  have mk': "mkdirs fs [] (t @ [x]) = Inr fsA"
    using mk by (simp add: mkdir_parents_def)
  have post: "well_formed fsA" "\<forall>q. prefix q (t @ [x]) \<longrightarrow> is_dir fsA q"
      "changes_within (\<lambda>p. prefix p (t @ [x]) \<and> lookup fs p = None) fs fsA"
    using mkdirs_post [OF wf root mk'] by simp_all
  have "p = t @ [x]" if "prefix p (t @ [x])" "lookup fs p = None" for p
  proof (rule ccontr)
    assume "p \<noteq> t @ [x]"
    with that(1) have "prefix p t" by simp
    then obtain r where r: "t = p @ r" by (auto simp: prefix_def)
    have "is_dir fs p"
    proof (cases "r = []")
      case True
      with r t show ?thesis by simp
    next
      case False
      with well_formed_ancestors [OF wf, of p r] t r show ?thesis
        by (simp add: is_dir_def)
    qed
    with that(2) show False by (simp add: is_dir_def)
  qed
  then have "changes_within (\<lambda>p. p = t @ [x]) fs fsA"
    by (intro changes_within_mono [OF post(3)]) blast
  moreover have "is_dir fsA (t @ [x])"
    using post(2) by blast
  ultimately show ?thesis
    using post(1) by blast
qed

subsection \<open>One entry of the source\<close>

lemma apart_append: "s @ a = t @ b \<Longrightarrow> prefix s t \<or> prefix t s"
  by (auto simp: append_eq_append_conv2 prefix_def)

lemma not_under_source:
  "\<not> prefix s t \<Longrightarrow> \<not> prefix t s \<Longrightarrow> \<not> under t N (s @ rel)"
  unfolding under_def using apart_append by blast

lemma under_head: "under t N (t @ rel) \<longleftrightarrow> rel \<noteq> [] \<and> hd rel \<in> N"
  by (auto simp: under_def)

lemma under_parent:
  assumes "\<not> prefix t s" "under t N k"
  shows "butlast k \<noteq> s"
proof -
  from assms(2) obtain rel where "k = t @ rel" "rel \<noteq> []"
    unfolding under_def by blast
  then have "butlast k = t @ butlast rel"
    by (simp add: butlast_append)
  with assms(1) show ?thesis by auto
qed

lemma copy2_Inr:
  assumes "copy2 fs src dst0 = Inr fs'"
  shows "\<exists>c dst. lookup fs src = Some (File c)
           \<and> dst = (if is_dir fs dst0 then dst0 @ [basename src] else dst0)
           \<and> fs' = AList.update dst (File c) fs
           \<and> lookup fs dst \<noteq> Some Dir
           \<and> (lookup fs dst = None \<longrightarrow> is_dir fs (butlast dst))"
  using assms
  by (auto simp: copy2_def Let_def is_dir_def split: if_splits option.splits node.splits)

lemma copied_file:
  assumes wf: "well_formed fs" and t: "is_dir fs t"
    and item: "\<not> is_dir fs (s @ [x])"
    and cp: "copy2 fs (s @ [x]) (t @ [x]) = Inr fs1"
  shows "copied {x} s t fs fs1"
proof -
  have bn: "basename (s @ [x]) = x"
    by (simp add: basename_def)
  from copy2_Inr [OF cp, unfolded bn] obtain c dst where
    c: "lookup fs (s @ [x]) = Some (File c)"
    and dst: "dst = (if is_dir fs (t @ [x]) then (t @ [x]) @ [x] else t @ [x])"
    and fs1: "fs1 = AList.update dst (File c) fs"
    and nd: "lookup fs dst \<noteq> Some Dir"
    and par: "lookup fs dst = None \<longrightarrow> is_dir fs (butlast dst)"
    by (elim exE conjE)
  have dst_ne: "dst \<noteq> []"
    using dst by auto
  have "is_dir fs (butlast dst)"
  proof (cases "lookup fs dst = None")
    case True
    with par show ?thesis by simp
  next
    case False
    then have "lookup fs (butlast dst @ [last dst]) \<noteq> None"
      using dst_ne by simp
    then show ?thesis
      by (rule well_formed_parent [OF wf])
  qed
  then have wf1: "well_formed fs1"
    unfolding fs1 using wf dst_ne nd by (intro well_formed_update)
  have "under t {x} (t @ [x, x])" "under t {x} (t @ [x])"
    by (simp_all add: under_head)
  then have "under t {x} dst"
    using dst by (simp split: if_splits)
  then have ch: "changes_within (under t {x}) fs fs1"
    unfolding fs1 using dst_ne by (intro changes_within_update)
  have no_below: "lookup fs (s @ x # r) = None" if "r \<noteq> []" for r
  proof (rule ccontr)
    assume "lookup fs (s @ x # r) \<noteq> None"
    then have "lookup fs ((s @ [x]) @ r) \<noteq> None" by simp
    from well_formed_ancestors [OF wf this that] item show False by simp
  qed
  have "mirrored {x} s t fs fs1"
    unfolding mirrored_def
  proof (intro allI impI)
    fix rel :: path
    assume "rel \<noteq> [] \<and> hd rel \<in> {x}"
    then obtain r where rel: "rel = x # r"
      by (cases rel) auto
    show "(is_dir fs (s @ rel) \<longrightarrow> is_dir fs1 (t @ rel))
        \<and> (\<forall>c. lookup fs (s @ rel) = Some (File c) \<and> \<not> is_dir fs (t @ rel)
               \<longrightarrow> lookup fs1 (t @ rel) = Some (File c))"
    proof (cases "r = []")
      case True
      have "lookup fs1 (t @ [x]) = Some (File c)" if "\<not> is_dir fs (t @ [x])"
        using that dst dst_ne by (simp add: fs1 lookup_update)
      with item c show ?thesis
        by (simp add: rel True)
    next
      case False
      from no_below [OF this] show ?thesis
        by (simp add: rel is_dir_def)
    qed
  qed
  with wf1 ch show ?thesis
    by (simp add: copied_def)
qed

lemma under_child: "under (t @ [x]) N p \<Longrightarrow> under t {x} p"
  unfolding under_def by auto

lemma copied_dir:
  assumes wf: "well_formed fs" and apart: "\<not> prefix s t" "\<not> prefix t s"
    and mk: "changes_within (\<lambda>p. p = t @ [x]) fs fsA" "is_dir fsA (t @ [x])"
    and nested: "copied N (s @ [x]) (t @ [x]) fsA fs1"
    and names: "\<And>y. lookup fs (s @ [x, y]) \<noteq> None \<Longrightarrow> y \<in> N"
    and item: "is_dir fs (s @ [x])"
  shows "copied {x} s t fs fs1"
proof -
  from nested have wf1: "well_formed fs1"
    and chN: "changes_within (under (t @ [x]) N) fsA fs1"
    and mir: "mirrored N (s @ [x]) (t @ [x]) fsA fs1"
    by (simp_all add: copied_def)
  have "changes_within (under t {x}) fs fsA"
    by (rule changes_within_mono [OF mk(1)]) (simp add: under_head)
  moreover have "changes_within (under t {x}) fsA fs1"
    by (rule changes_within_mono [OF chN]) (rule under_child)
  ultimately have ch: "changes_within (under t {x}) fs fs1"
    by (rule changes_within_trans)
  have same_src: "lookup fsA (s @ r) = lookup fs (s @ r)" for r
  proof -
    have "s @ r \<noteq> t @ [x]"
      using apart apart_append by blast
    with mk(1) show ?thesis
      by (simp add: changes_within_lookup)
  qed
  have same_tgt: "lookup fsA (t @ x # r) = lookup fs (t @ x # r)" if "r \<noteq> []" for r
    using mk(1) that by (simp add: changes_within_lookup)
  have "mirrored {x} s t fs fs1"
    unfolding mirrored_def
  proof (intro allI impI)
    fix rel :: path
    assume "rel \<noteq> [] \<and> hd rel \<in> {x}"
    then obtain r where rel: "rel = x # r"
      by (cases rel) auto
    show "(is_dir fs (s @ rel) \<longrightarrow> is_dir fs1 (t @ rel))
        \<and> (\<forall>c. lookup fs (s @ rel) = Some (File c) \<and> \<not> is_dir fs (t @ rel)
               \<longrightarrow> lookup fs1 (t @ rel) = Some (File c))"
    proof (cases "r = []")
      case True
      have "\<not> under (t @ [x]) N (t @ [x])"
        using under_head [of "t @ [x]" N "[]"] by simp
      with chN mk(2) have "is_dir fs1 (t @ [x])"
        by (simp add: is_dir_def changes_within_lookup)
      with item show ?thesis
        by (simp add: rel True is_dir_def)
    next
      case False
      show ?thesis
      proof (cases "lookup fs (s @ rel) = None")
        case True
        then show ?thesis by (simp add: is_dir_def)
      next
        case present: False
        obtain y r' where r: "r = y # r'"
          using False by (cases r) auto
        have "lookup fs (s @ [x, y]) \<noteq> None"
        proof (cases "r' = []")
          case True
          with present show ?thesis by (simp add: rel r)
        next
          case False
          have "lookup fs ((s @ [x, y]) @ r') \<noteq> None"
            using present by (simp add: rel r)
          from well_formed_ancestors [OF wf this False] show ?thesis
            by (simp add: is_dir_def)
        qed
        then have y: "r \<noteq> [] \<and> hd r \<in> N"
          using names by (simp add: r)
        have src: "lookup fsA ((s @ [x]) @ r) = lookup fs (s @ rel)"
          using same_src [of "x # r"] by (simp add: rel)
        have tgt: "lookup fsA ((t @ [x]) @ r) = lookup fs (t @ rel)"
          using same_tgt [OF False] by (simp add: rel)
        have "(is_dir fsA ((s @ [x]) @ r) \<longrightarrow> is_dir fs1 ((t @ [x]) @ r))
            \<and> (\<forall>c. lookup fsA ((s @ [x]) @ r) = Some (File c) \<and> \<not> is_dir fsA ((t @ [x]) @ r)
                   \<longrightarrow> lookup fs1 ((t @ [x]) @ r) = Some (File c))"
          using mir y unfolding mirrored_def by blast
        then show ?thesis
          unfolding is_dir_def src tgt by (simp add: rel)
      qed
    qed
  qed
  with wf1 ch show ?thesis
    by (simp add: copied_def)
qed

lemma copied_combine:
  assumes apart: "\<not> prefix s t" "\<not> prefix t s"
    and one: "copied {x} s t fs fs1" and more: "copied N s t fs1 fs'" and x: "x \<notin> N"
  shows "copied (insert x N) s t fs fs'"
proof -
  from one have ch1: "changes_within (under t {x}) fs fs1" and mir1: "mirrored {x} s t fs fs1"
    by (simp_all add: copied_def)
  from more have wf': "well_formed fs'" and chN: "changes_within (under t N) fs1 fs'"
    and mirN: "mirrored N s t fs1 fs'"
    by (simp_all add: copied_def)
  have "changes_within (under t (insert x N)) fs fs1"
    by (rule changes_within_mono [OF ch1]) (auto simp: under_def)
  moreover have "changes_within (under t (insert x N)) fs1 fs'"
    by (rule changes_within_mono [OF chN]) (auto simp: under_def)
  ultimately have ch: "changes_within (under t (insert x N)) fs fs'"
    by (rule changes_within_trans)
  have "mirrored (insert x N) s t fs fs'"
    unfolding mirrored_def
  proof (intro allI impI)
    fix rel :: path
    assume rel: "rel \<noteq> [] \<and> hd rel \<in> insert x N"
    have src: "lookup fs1 (s @ rel) = lookup fs (s @ rel)"
      using ch1 not_under_source [OF apart] by (simp add: changes_within_lookup)
    show "(is_dir fs (s @ rel) \<longrightarrow> is_dir fs' (t @ rel))
        \<and> (\<forall>c. lookup fs (s @ rel) = Some (File c) \<and> \<not> is_dir fs (t @ rel)
               \<longrightarrow> lookup fs' (t @ rel) = Some (File c))"
    proof (cases "hd rel = x")
      case True
      then have "\<not> under t N (t @ rel)"
        using x by (simp add: under_head)
      with chN have keep: "lookup fs' (t @ rel) = lookup fs1 (t @ rel)"
        by (simp add: changes_within_lookup)
      have "(is_dir fs (s @ rel) \<longrightarrow> is_dir fs1 (t @ rel))
        \<and> (\<forall>c. lookup fs (s @ rel) = Some (File c) \<and> \<not> is_dir fs (t @ rel)
               \<longrightarrow> lookup fs1 (t @ rel) = Some (File c))"
        using mir1 rel True unfolding mirrored_def by blast
      then show ?thesis
        by (simp add: is_dir_def keep)
    next
      case False
      then have "\<not> under t {x} (t @ rel)"
        by (simp add: under_head)
      with ch1 have tgt: "lookup fs1 (t @ rel) = lookup fs (t @ rel)"
        by (simp add: changes_within_lookup)
      have "hd rel \<in> N"
        using rel False by simp
      then have "(is_dir fs1 (s @ rel) \<longrightarrow> is_dir fs' (t @ rel))
        \<and> (\<forall>c. lookup fs1 (s @ rel) = Some (File c) \<and> \<not> is_dir fs1 (t @ rel)
               \<longrightarrow> lookup fs' (t @ rel) = Some (File c))"
        using mirN rel unfolding mirrored_def by blast
      then show ?thesis
        unfolding is_dir_def src tgt .
    qed
  qed
  with wf' ch show ?thesis
    by (simp add: copied_def)
qed

lemma copied_empty: "well_formed fs \<Longrightarrow> copied {} s t fs fs"
  by (simp add: copied_def changes_within_refl mirrored_def)

subsection \<open>The loop over the entries\<close>

lemma iterdir_Inr: "iterdir fs p = Inr items \<longleftrightarrow> is_dir fs p \<and> items = children fs p"
  by (auto simp: iterdir_def children_def is_dir_def split: option.splits node.splits)

lemma is_dir_exists: "is_dir fs p \<Longrightarrow> path_exists fs p"
  by (simp add: is_dir_def path_exists_def)

lemma copy_directory_returns:
  assumes "copy_directory n w s t = Some (None, w')"
  shows "\<exists>m fsA. n = Suc m \<and> path_exists (files w) s \<and> mkdir_parents (files w) t = Inr fsA
           \<and> is_dir fsA s
           \<and> copy_items m (log_to INFO (''Created/verified target directory: '' @ path_str t)
                             (w\<lparr>files := fsA\<rparr>)) (children fsA s) t = Some (None, w')"
proof (cases n)
  case 0
  with assms show ?thesis by simp
next
  case (Suc m)
  with assms obtain fsA where mk: "mkdir_parents (files w) t = Inr fsA"
    and ex: "path_exists (files w) s"
    by (cases "mkdir_parents (files w) t") (simp_all split: if_splits)
  with assms Suc obtain items where it: "iterdir fsA s = Inr items"
    by (cases "iterdir fsA s") (simp_all add: Let_def)
  with assms Suc mk ex show ?thesis
    by (simp add: Let_def iterdir_Inr)
qed

lemma copy_items_returns:
  assumes "copy_items n w (item # items) t = Some (None, w')"
  shows "\<exists>w1. copy_items n w1 items t = Some (None, w')
           \<and> (if is_dir (files w) item
               then copy_directory n w item (t @ [basename item]) = Some (None, w1)
               else copy2 (files w) item (t @ [basename item]) = Inr (files w1))"
proof (cases "is_dir (files w) item")
  case True
  with assms show ?thesis
    by (auto simp: Let_def split: option.splits prod.splits)
next
  case False
  with assms obtain fs1 where "copy2 (files w) item (t @ [basename item]) = Inr fs1"
    by (cases "copy2 (files w) item (t @ [basename item])") (simp_all add: Let_def)
  with assms False show ?thesis
    by (auto simp: Let_def files_log_to intro!: exI [of _ "log_to INFO (''Copied file: '' @ basename item) (w\<lparr>files := fs1\<rparr>)"])
qed

lemma children_item: "item \<in> set (children fs s) \<Longrightarrow> item = s @ [last item] \<and> lookup fs item \<noteq> None"
  by (auto simp: children_def lookup_None_iff)

lemma children_mem: "lookup fs (s @ [y]) \<noteq> None \<Longrightarrow> s @ [y] \<in> set (children fs s)"
  using lookup_None_iff [of "s @ [y]" fs] by (auto simp: children_def)

lemma distinct_children: "well_formed fs \<Longrightarrow> distinct (children fs s)"
  by (simp add: well_formed_def children_def)

lemma apart_child:
  assumes "\<not> prefix s t" "\<not> prefix t s"
  shows "\<not> prefix (s @ [x]) (t @ [y])" "\<not> prefix (t @ [y]) (s @ [x])"
  using assms by (auto dest: append_prefixD)

lemma copied_dir_run:
  assumes IH: "\<And>w items s t w'.
      well_formed (files w) \<Longrightarrow> is_dir (files w) t \<Longrightarrow> \<not> prefix s t \<Longrightarrow> \<not> prefix t s \<Longrightarrow>
      set items \<subseteq> set (children (files w) s) \<Longrightarrow> distinct items \<Longrightarrow>
      copy_items m w items t = Some (None, w') \<Longrightarrow>
      copied (last ` set items) s t (files w) (files w')"
    and wf: "well_formed (files w)" and t: "is_dir (files w) t"
    and apart: "\<not> prefix s t" "\<not> prefix t s"
    and item: "is_dir (files w) (s @ [x])"
    and call: "copy_directory (Suc m) w (s @ [x]) (t @ [x]) = Some (None, w1)"
  shows "copied {x} s t (files w) (files w1)"
proof -
  let ?fs = "files w"
  from copy_directory_returns [OF call] obtain fsA where
    mk: "mkdir_parents ?fs (t @ [x]) = Inr fsA"
    and run: "copy_items m (log_to INFO (''Created/verified target directory: '' @ path_str (t @ [x]))
                (w\<lparr>files := fsA\<rparr>)) (children fsA (s @ [x])) (t @ [x]) = Some (None, w1)"
    by blast
  from mkdir_child [OF wf t mk] have wfA: "well_formed fsA"
    and dA: "is_dir fsA (t @ [x])"
    and chA: "changes_within (\<lambda>p. p = t @ [x]) ?fs fsA"
    by simp_all
  let ?wA = "log_to INFO (''Created/verified target directory: '' @ path_str (t @ [x]))
                (w\<lparr>files := fsA\<rparr>)"
  have fA: "files ?wA = fsA"
    by (simp add: files_log_to)
  have "copied (last ` set (children fsA (s @ [x]))) (s @ [x]) (t @ [x]) (files ?wA) (files w1)"
  proof (rule IH [OF _ _ _ _ _ _ run])
    show "well_formed (files ?wA)" using wfA fA by simp
    show "is_dir (files ?wA) (t @ [x])" using dA fA by simp
    show "\<not> prefix (s @ [x]) (t @ [x])" "\<not> prefix (t @ [x]) (s @ [x])"
      using apart_child [OF apart] by blast+
    show "set (children fsA (s @ [x])) \<subseteq> set (children (files ?wA) (s @ [x]))"
      using fA by simp
    show "distinct (children fsA (s @ [x]))"
      using wfA by (rule distinct_children)
  qed
  then have nested: "copied (last ` set (children fsA (s @ [x]))) (s @ [x]) (t @ [x]) fsA (files w1)"
    using fA by simp
  have names: "y \<in> last ` set (children fsA (s @ [x]))" if "lookup ?fs (s @ [x, y]) \<noteq> None" for y
  proof -
    have "s @ [x, y] \<in> set (map fst ?fs)"
      using that lookup_None_iff [of "s @ [x, y]" ?fs] by simp
    then have "s @ [x, y] \<in> set (map fst fsA)"
      using changes_within_keys [OF chA] by blast
    then have "lookup fsA ((s @ [x]) @ [y]) \<noteq> None"
      using lookup_None_iff [of "s @ [x, y]" fsA] by simp
    from children_mem [OF this] have "last ((s @ [x]) @ [y]) \<in> last ` set (children fsA (s @ [x]))"
      by (rule imageI)
    then show ?thesis by simp
  qed
  from copied_dir [OF wf apart chA dA nested names item] show ?thesis .
qed

lemma copy_items_copied:
  "well_formed (files w) \<Longrightarrow> is_dir (files w) t \<Longrightarrow> \<not> prefix s t \<Longrightarrow> \<not> prefix t s \<Longrightarrow>
   set items \<subseteq> set (children (files w) s) \<Longrightarrow> distinct items \<Longrightarrow>
   copy_items n w items t = Some (None, w') \<Longrightarrow>
   copied (last ` set items) s t (files w) (files w')"
proof (induction n arbitrary: w items s t w' rule: less_induct)
  case (less n)
  note outer = less.IH
  note apart = less.prems(3,4)
  from less.prems(1,2,5,6,7) show ?case
  proof (induction items arbitrary: w)
    case Nil
    then show ?case by (simp add: copied_empty)
  next
    case (Cons item items)
    let ?fs = "files w"
    note wf = Cons.prems(1) and t = Cons.prems(2)
    have "item \<in> set (children ?fs s)"
      using Cons.prems(3) by simp
    from children_item [OF this] obtain x where item: "item = s @ [x]"
      and present: "lookup ?fs (s @ [x]) \<noteq> None"
      by metis
    have bn: "basename item = x"
      by (simp add: item basename_def)
    from copy_items_returns [OF Cons.prems(5)] obtain w1 where
      rest: "copy_items n w1 items t = Some (None, w')"
      and step: "if is_dir ?fs item
                 then copy_directory n w item (t @ [x]) = Some (None, w1)
                 else copy2 ?fs item (t @ [x]) = Inr (files w1)"
      unfolding bn by blast
    have one: "copied {x} s t ?fs (files w1)"
    proof (cases "is_dir ?fs item")
      case False
      with step show ?thesis
        unfolding item by (intro copied_file [OF wf t]) simp_all
    next
      case True
      with step have call: "copy_directory n w (s @ [x]) (t @ [x]) = Some (None, w1)"
        by (simp add: item)
      then obtain m where n: "n = Suc m"
        by (cases n) simp_all
      have m: "m < n"
        using n by simp
      from True have "is_dir ?fs (s @ [x])"
        by (simp add: item)
      from copied_dir_run [OF outer [OF m] wf t apart this call [unfolded n]] show ?thesis .
    qed
    then have wf1: "well_formed (files w1)" and ch1: "changes_within (under t {x}) ?fs (files w1)"
      by (simp_all add: copied_def)
    have "\<not> under t {x} t"
      using under_head [of t "{x}" "[]"] by simp
    with ch1 t have t1: "is_dir (files w1) t"
      by (simp add: is_dir_def changes_within_lookup)
    have "children (files w1) s = children ?fs s"
      using ch1 by (rule changes_within_children) (use under_parent [OF apart(2)] in blast)
    with Cons.prems(3) have sub1: "set items \<subseteq> set (children (files w1) s)"
      by simp
    from Cons.prems(4) have d1: "distinct items"
      by simp
    from Cons.IH [OF wf1 t1 sub1 d1 rest]
    have more: "copied (last ` set items) s t (files w1) (files w')" .
    have fresh: "x \<notin> last ` set items"
    proof
      assume "x \<in> last ` set items"
      then obtain item' where i': "item' \<in> set items" "last item' = x"
        by auto
      with Cons.prems(3) have "item' \<in> set (children ?fs s)"
        by auto
      from children_item [OF this] i'(2) have "item' = item"
        by (simp add: item)
      with i'(1) Cons.prems(4) show False by simp
    qed
    have "last ` set (item # items) = insert x (last ` set items)"
      by (simp add: item)
    with copied_combine [OF apart one more fresh] show ?case
      by simp
  qed
qed

subsection \<open>The whole call\<close>

lemma first_component:
  assumes wf: "well_formed fs" and "lookup fs (s @ rel) \<noteq> None" "rel \<noteq> []"
  shows "lookup fs (s @ [hd rel]) \<noteq> None"
proof (cases "tl rel = []")
  case True
  with assms(2,3) show ?thesis
    by (cases rel) simp_all
next
  case False
  have "lookup fs ((s @ [hd rel]) @ tl rel) \<noteq> None"
    using assms(2,3) by simp
  from well_formed_ancestors [OF wf this False] show ?thesis
    by (simp add: is_dir_def)
qed

lemma copy_directory_copied:
  assumes wf: "well_formed (files w)" and apart: "\<not> prefix s t" "\<not> prefix t s"
    and call: "copy_directory n w s t = Some (None, w')"
  shows "well_formed (files w')"
    and "\<forall>q. prefix q t \<longrightarrow> is_dir (files w') q"
    and "\<forall>rel. is_dir (files w) (s @ rel) \<longrightarrow> is_dir (files w') (t @ rel)"
    and "\<forall>rel c. lookup (files w) (s @ rel) = Some (File c) \<and> \<not> is_dir (files w) (t @ rel)
           \<longrightarrow> lookup (files w') (t @ rel) = Some (File c)"
    and "\<forall>rel. lookup (files w') (s @ rel) = lookup (files w) (s @ rel)"
proof -
  let ?fs = "files w" and ?fs' = "files w'"
  from copy_directory_returns [OF call] obtain m fsA where
    mk: "mkdir_parents ?fs t = Inr fsA" and sA: "is_dir fsA s"
    and run: "copy_items m (log_to INFO (''Created/verified target directory: '' @ path_str t)
                (w\<lparr>files := fsA\<rparr>)) (children fsA s) t = Some (None, w')"
    by blast
  let ?wA = "log_to INFO (''Created/verified target directory: '' @ path_str t) (w\<lparr>files := fsA\<rparr>)"
  let ?N = "last ` set (children fsA s)"
  have fA: "files ?wA = fsA"
    by (simp add: files_log_to)
  have root: "is_dir ?fs []"
    by (simp add: is_dir_def lookup_Nil)
  have mk': "mkdirs ?fs [] t = Inr fsA"
    using mk by (simp add: mkdir_parents_def)
  have wfA: "well_formed fsA" and dirsA: "\<forall>q. prefix q t \<longrightarrow> is_dir fsA q"
    and chA: "changes_within (\<lambda>p. prefix p t \<and> lookup ?fs p = None) ?fs fsA"
    using mkdirs_post [OF wf root mk'] by simp_all
  have "copied ?N s t (files ?wA) ?fs'"
  proof (rule copy_items_copied [OF _ _ apart _ _ run])
    show "well_formed (files ?wA)" using wfA fA by simp
    show "is_dir (files ?wA) t" using dirsA fA by simp
    show "set (children fsA s) \<subseteq> set (children (files ?wA) s)" using fA by simp
    show "distinct (children fsA s)" using wfA by (rule distinct_children)
  qed
  then have wf': "well_formed ?fs'" and ch: "changes_within (under t ?N) fsA ?fs'"
    and mir: "mirrored ?N s t fsA ?fs'"
    using fA by (simp_all add: copied_def)
  have srcA: "lookup fsA (s @ rel) = lookup ?fs (s @ rel)" for rel
  proof -
    have "\<not> prefix (s @ rel) t"
      using apart(1) by (auto dest: append_prefixD)
    with chA show ?thesis
      by (simp add: changes_within_lookup)
  qed
  have tgtA: "lookup fsA (t @ rel) = lookup ?fs (t @ rel)" if "rel \<noteq> []" for rel
    using chA that by (simp add: changes_within_lookup)
  have name: "hd rel \<in> ?N" if "lookup ?fs (s @ rel) \<noteq> None" "rel \<noteq> []" for rel
  proof -
    have "lookup fsA (s @ rel) \<noteq> None"
      using that(1) srcA by simp
    from first_component [OF wfA this that(2)] have "s @ [hd rel] \<in> set (children fsA s)"
      by (rule children_mem)
    then have "last (s @ [hd rel]) \<in> ?N"
      by (rule imageI)
    then show ?thesis by simp
  qed
  show "well_formed ?fs'" by (rule wf')
  show dirs: "\<forall>q. prefix q t \<longrightarrow> is_dir ?fs' q"
  proof (intro allI impI)
    fix q assume q: "prefix q t"
    have "\<not> under t ?N q"
    proof
      assume "under t ?N q"
      then obtain rel where "q = t @ rel" "rel \<noteq> []"
        unfolding under_def by blast
      with q show False by simp
    qed
    with ch dirsA q show "is_dir ?fs' q"
      by (simp add: is_dir_def changes_within_lookup)
  qed
  show "\<forall>rel. is_dir ?fs (s @ rel) \<longrightarrow> is_dir ?fs' (t @ rel)"
  proof (intro allI impI)
    fix rel assume d: "is_dir ?fs (s @ rel)"
    show "is_dir ?fs' (t @ rel)"
    proof (cases "rel = []")
      case True
      with dirs show ?thesis by simp
    next
      case False
      with d name [of rel] have "rel \<noteq> [] \<and> hd rel \<in> ?N"
        by (simp add: is_dir_def)
      with mir have "is_dir fsA (s @ rel) \<longrightarrow> is_dir ?fs' (t @ rel)"
        unfolding mirrored_def by blast
      with d srcA show ?thesis
        by (simp add: is_dir_def)
    qed
  qed
  show "\<forall>rel c. lookup ?fs (s @ rel) = Some (File c) \<and> \<not> is_dir ?fs (t @ rel)
           \<longrightarrow> lookup ?fs' (t @ rel) = Some (File c)"
  proof (intro allI impI)
    fix rel c assume f: "lookup ?fs (s @ rel) = Some (File c) \<and> \<not> is_dir ?fs (t @ rel)"
    have "rel \<noteq> []"
      using f sA srcA [of "[]"] by (auto simp: is_dir_def)
    with f name [of rel] have "rel \<noteq> [] \<and> hd rel \<in> ?N"
      by simp
    with mir have "lookup fsA (s @ rel) = Some (File c) \<and> \<not> is_dir fsA (t @ rel)
           \<longrightarrow> lookup ?fs' (t @ rel) = Some (File c)"
      unfolding mirrored_def by blast
    with f srcA tgtA [OF \<open>rel \<noteq> []\<close>] show "lookup ?fs' (t @ rel) = Some (File c)"
      by (simp add: is_dir_def)
  qed
  show "\<forall>rel. lookup ?fs' (s @ rel) = lookup ?fs (s @ rel)"
  proof
    fix rel
    have "lookup ?fs' (s @ rel) = lookup fsA (s @ rel)"
      using ch not_under_source [OF apart] by (simp add: changes_within_lookup)
    with srcA show "lookup ?fs' (s @ rel) = lookup ?fs (s @ rel)"
      by simp
  qed
qed

subsection \<open>The call ends\<close>

lemma shallow_child: "shallow fs s (Suc m) \<Longrightarrow> shallow fs (s @ [x]) m"
  unfolding shallow_def
proof (intro allI impI)
  fix rel assume a: "\<forall>rel. rel \<noteq> [] \<and> is_dir fs (s @ rel) \<longrightarrow> length rel \<le> Suc m"
    and r: "rel \<noteq> [] \<and> is_dir fs ((s @ [x]) @ rel)"
  from a [rule_format, of "x # rel"] r show "length rel \<le> m" by simp
qed

lemma shallow_same:
  "shallow fs s n \<Longrightarrow> (\<And>rel. lookup fs' (s @ rel) = lookup fs (s @ rel)) \<Longrightarrow> shallow fs' s n"
  by (simp add: shallow_def is_dir_def)

lemma after_item:
  assumes apart: "\<not> prefix s t" "\<not> prefix t s"
    and one: "copied {x} s t fs fs1" and t: "is_dir fs t" and sh: "shallow fs s n"
    and sub: "set items \<subseteq> set (children fs s)"
  shows "well_formed fs1" "is_dir fs1 t" "shallow fs1 s n" "set items \<subseteq> set (children fs1 s)"
proof -
  from one have wf1: "well_formed fs1" and ch1: "changes_within (under t {x}) fs fs1"
    by (simp_all add: copied_def)
  show "well_formed fs1" by (rule wf1)
  have "\<not> under t {x} t"
    using under_head [of t "{x}" "[]"] by simp
  with ch1 t show "is_dir fs1 t"
    by (simp add: is_dir_def changes_within_lookup)
  have "lookup fs1 (s @ rel) = lookup fs (s @ rel)" for rel
    using ch1 not_under_source [OF apart] by (simp add: changes_within_lookup)
  with sh show "shallow fs1 s n"
    by (rule shallow_same)
  have "children fs1 s = children fs s"
    using ch1 by (rule changes_within_children) (use under_parent [OF apart(2)] in blast)
  with sub show "set items \<subseteq> set (children fs1 s)"
    by simp
qed

lemma copy_items_Cons_dir:
  "is_dir (files w) item \<Longrightarrow>
   copy_items n w (item # items) t =
     (case copy_directory n w item (t @ [basename item]) of
        None \<Rightarrow> None
      | Some (Some e, w') \<Rightarrow> Some (Some e, w')
      | Some (None, w') \<Rightarrow> copy_items n w' items t)"
  by (simp add: Let_def)

lemma copy_items_Cons_file:
  "\<not> is_dir (files w) item \<Longrightarrow>
   copy_items n w (item # items) t =
     (case copy2 (files w) item (t @ [basename item]) of
        Inl e \<Rightarrow> Some (Some e, w)
      | Inr fs' \<Rightarrow> copy_items n (log_to INFO (''Copied file: '' @ basename item) (w\<lparr>files := fs'\<rparr>))
                    items t)"
  by (simp add: Let_def)

lemma copy_directory_Suc_dir:
  assumes "is_dir (files w) s"
  shows "copy_directory (Suc m) w s t =
     (case mkdir_parents (files w) t of
        Inl e \<Rightarrow> Some (Some e, w)
      | Inr fsA \<Rightarrow>
          (case iterdir fsA s of
             Inl e \<Rightarrow> Some (Some e, log_to INFO (''Created/verified target directory: '' @ path_str t)
                                      (w\<lparr>files := fsA\<rparr>))
           | Inr items \<Rightarrow> copy_items m (log_to INFO (''Created/verified target directory: '' @ path_str t)
                                      (w\<lparr>files := fsA\<rparr>)) items t))"
  using is_dir_exists [OF assms] by (simp add: Let_def split: sum.splits)

lemma copy_items_terminates:
  "shallow (files w) s n \<Longrightarrow> well_formed (files w) \<Longrightarrow> is_dir (files w) t \<Longrightarrow>
   \<not> prefix s t \<Longrightarrow> \<not> prefix t s \<Longrightarrow>
   set items \<subseteq> set (children (files w) s) \<Longrightarrow> distinct items \<Longrightarrow>
   \<exists>r. copy_items n w items t = Some r"
proof (induction n arbitrary: w items s t rule: less_induct)
  case (less n)
  note outer = less.IH
  note apart = less.prems(4,5)
  from less.prems(1,2,3,6,7) show ?case
  proof (induction items arbitrary: w)
    case Nil
    show ?case by simp
  next
    case (Cons item items)
    let ?fs = "files w"
    note sh = Cons.prems(1) and wf = Cons.prems(2) and t = Cons.prems(3)
    have "item \<in> set (children ?fs s)"
      using Cons.prems(4) by simp
    from children_item [OF this] obtain x where item: "item = s @ [x]"
      by metis
    have bn: "basename item = x"
      by (simp add: item basename_def)
    have sub: "set items \<subseteq> set (children ?fs s)" and dist: "distinct items"
      using Cons.prems(4,5) by simp_all
    have next_items: "\<exists>r. copy_items n w1 items t = Some r"
      if "copied {x} s t ?fs (files w1)" for w1
      using after_item [OF apart that t sh sub] dist by (intro Cons.IH)
    show ?case
    proof (cases "is_dir ?fs item")
      case False
      show ?thesis
      proof (cases "copy2 ?fs item (t @ [x])")
        case (Inl e)
        with False show ?thesis
          by (simp add: copy_items_Cons_file bn del: copy_items.simps)
      next
        case (Inr fs1)
        let ?w1 = "log_to INFO (''Copied file: '' @ x) (w\<lparr>files := fs1\<rparr>)"
        have "copied {x} s t ?fs fs1"
          using False Inr unfolding item by (intro copied_file [OF wf t]) simp_all
        then have "copied {x} s t ?fs (files ?w1)"
          by (simp add: files_log_to)
        from next_items [OF this] False Inr show ?thesis
          by (simp add: copy_items_Cons_file bn del: copy_items.simps)
      qed
    next
      case True
      then have dir: "is_dir ?fs (s @ [x])"
        by (simp add: item)
      with sh have "length [x] \<le> n"
        unfolding shallow_def by blast
      then obtain m where n: "n = Suc m"
        by (cases n) simp_all
      have m: "m < n"
        using n by simp
      have "\<exists>r. copy_directory (Suc m) w (s @ [x]) (t @ [x]) = Some r"
      proof (cases "mkdir_parents ?fs (t @ [x])")
        case (Inl e)
        with dir show ?thesis
          by (simp add: copy_directory_Suc_dir del: copy_directory.simps)
      next
        case (Inr fsA)
        let ?wA = "log_to INFO (''Created/verified target directory: '' @ path_str (t @ [x]))
                     (w\<lparr>files := fsA\<rparr>)"
        have fA: "files ?wA = fsA"
          by (simp add: files_log_to)
        from mkdir_child [OF wf t Inr] have wfA: "well_formed fsA"
          and dA: "is_dir fsA (t @ [x])"
          and chA: "changes_within (\<lambda>p. p = t @ [x]) ?fs fsA"
          by simp_all
        have same: "lookup fsA ((s @ [x]) @ rel) = lookup ?fs ((s @ [x]) @ rel)" for rel
        proof -
          have "(s @ [x]) @ rel \<noteq> t @ [x]"
            using apart apart_append [of s "x # rel" t "[x]"] by auto
          with chA show ?thesis
            by (simp add: changes_within_lookup)
        qed
        have "is_dir fsA (s @ [x])"
          using same [of "[]"] dir by (simp add: is_dir_def)
        then have it: "iterdir fsA (s @ [x]) = Inr (children fsA (s @ [x]))"
          by (simp add: iterdir_Inr)
        have "shallow ?fs (s @ [x]) m"
          using sh unfolding n by (rule shallow_child)
        then have shA: "shallow fsA (s @ [x]) m"
          using same by (rule shallow_same)
        have "\<exists>r. copy_items m ?wA (children fsA (s @ [x])) (t @ [x]) = Some r"
        proof (rule outer [OF m])
          show "shallow (files ?wA) (s @ [x]) m" using shA fA by simp
          show "well_formed (files ?wA)" using wfA fA by simp
          show "is_dir (files ?wA) (t @ [x])" using dA fA by simp
          show "\<not> prefix (s @ [x]) (t @ [x])" "\<not> prefix (t @ [x]) (s @ [x])"
            using apart_child [OF apart] by blast+
          show "set (children fsA (s @ [x])) \<subseteq> set (children (files ?wA) (s @ [x]))"
            using fA by simp
          show "distinct (children fsA (s @ [x]))"
            using wfA by (rule distinct_children)
        qed
        with dir Inr it show ?thesis
          by (simp add: copy_directory_Suc_dir del: copy_directory.simps)
      qed
      then obtain exc w1 where call: "copy_directory (Suc m) w (s @ [x]) (t @ [x]) = Some (exc, w1)"
        by auto
      show ?thesis
      proof (cases exc)
        case (Some e)
        with call True show ?thesis
          by (simp add: copy_items_Cons_dir bn [unfolded item] item n del: copy_items.simps copy_directory.simps)
      next
        case None
        with call have call': "copy_directory (Suc m) w (s @ [x]) (t @ [x]) = Some (None, w1)"
          by simp
        have "copied {x} s t ?fs (files w1)"
          by (rule copied_dir_run [OF copy_items_copied wf t apart dir call'])
        from next_items [OF this] call' True show ?thesis
          by (simp add: copy_items_Cons_dir bn [unfolded item] item n del: copy_items.simps copy_directory.simps)
      qed
    qed
  qed
qed

subsection \<open>The contract\<close>

lemma shallow_bound:
  assumes "well_formed fs"
  shows "shallow fs s (sum_list (map length (map fst fs)))"
  unfolding shallow_def
proof (intro allI impI)
  fix rel assume r: "rel \<noteq> [] \<and> is_dir fs (s @ rel)"
  then have "s @ rel \<in> set (map fst fs)"
    using lookup_None_iff [of "s @ rel" fs] by (auto simp: is_dir_def)
  then have "length (s @ rel) \<in> set (map length (map fst fs))"
    by (metis image_eqI set_map)
  then have "length (s @ rel) \<le> sum_list (map length (map fst fs))"
    by (intro member_le_sum_list) simp_all
  then show "length rel \<le> sum_list (map length (map fst fs))"
    by simp
qed

lemma copy_directory_terminates:
  assumes wf: "well_formed (files w)" and apart: "\<not> prefix s t" "\<not> prefix t s"
  shows "\<exists>n r. copy_directory n w s t = Some r"
proof -
  let ?fs = "files w"
  let ?N = "sum_list (map length (map fst ?fs))"
  have "\<exists>r. copy_directory (Suc ?N) w s t = Some r"
  proof (cases "is_dir ?fs s")
    case False
    show ?thesis
    proof (cases "path_exists ?fs s")
      case False
      then show ?thesis by simp
    next
      case True
      show ?thesis
      proof (cases "mkdir_parents ?fs t")
        case (Inl e)
        with True show ?thesis by simp
      next
        case (Inr fsA)
        have root: "is_dir ?fs []"
          by (simp add: is_dir_def lookup_Nil)
        have mk': "mkdirs ?fs [] t = Inr fsA"
          using Inr by (simp add: mkdir_parents_def)
        have chA: "changes_within (\<lambda>p. prefix p t \<and> lookup ?fs p = None) ?fs fsA"
          using mkdirs_post [OF wf root mk'] by simp
        have "\<not> prefix s t \<and> lookup ?fs s \<noteq> None"
          using apart(1) True by (auto simp: path_exists_def split: option.splits)
        with chA have "lookup fsA s = lookup ?fs s"
          by (simp add: changes_within_lookup)
        with False have "\<not> is_dir fsA s"
          by (simp add: is_dir_def)
        then obtain e where "iterdir fsA s = Inl e"
          using iterdir_Inr [of fsA s] by (cases "iterdir fsA s") auto
        with True Inr show ?thesis
          by (simp add: Let_def)
      qed
    qed
  next
    case True
    show ?thesis
    proof (cases "mkdir_parents ?fs t")
      case (Inl e)
      with True show ?thesis
        by (simp add: copy_directory_Suc_dir del: copy_directory.simps)
    next
      case (Inr fsA)
      let ?wA = "log_to INFO (''Created/verified target directory: '' @ path_str t) (w\<lparr>files := fsA\<rparr>)"
      have fA: "files ?wA = fsA"
        by (simp add: files_log_to)
      have root: "is_dir ?fs []"
        by (simp add: is_dir_def lookup_Nil)
      have mk': "mkdirs ?fs [] t = Inr fsA"
        using Inr by (simp add: mkdir_parents_def)
      have wfA: "well_formed fsA" and dirsA: "\<forall>q. prefix q t \<longrightarrow> is_dir fsA q"
        and chA: "changes_within (\<lambda>p. prefix p t \<and> lookup ?fs p = None) ?fs fsA"
        using mkdirs_post [OF wf root mk'] by simp_all
      have same: "lookup fsA (s @ rel) = lookup ?fs (s @ rel)" for rel
      proof -
        have "\<not> prefix (s @ rel) t"
          using apart(1) by (auto dest: append_prefixD)
        with chA show ?thesis
          by (simp add: changes_within_lookup)
      qed
      have "is_dir fsA s"
        using same [of "[]"] True by (simp add: is_dir_def)
      then have it: "iterdir fsA s = Inr (children fsA s)"
        by (simp add: iterdir_Inr)
      have "shallow fsA s ?N"
        using shallow_bound [OF wf] same by (rule shallow_same)
      have "\<exists>r. copy_items ?N ?wA (children fsA s) t = Some r"
      proof (rule copy_items_terminates [OF _ _ _ apart])
        show "shallow (files ?wA) s ?N" using \<open>shallow fsA s ?N\<close> fA by simp
        show "well_formed (files ?wA)" using wfA fA by simp
        show "is_dir (files ?wA) t" using dirsA fA by simp
        show "set (children fsA s) \<subseteq> set (children (files ?wA) s)" using fA by simp
        show "distinct (children fsA s)" using wfA by (rule distinct_children)
      qed
      with True Inr it show ?thesis
        by (simp add: copy_directory_Suc_dir del: copy_directory.simps)
    qed
  qed
  then show ?thesis by blast
qed


text \<open>The equations that evaluate the file-system operations on a concrete tree.\<close>

lemmas fs_eval = path_exists_def lookup_def is_dir_def well_formed_def mkdir_parents_def
  iterdir_def copy2_def basename_def path_str_def log_to_def Let_def



end
